theory Spec2Isabelle
  imports Main "HOL-Library.Sublist"
begin

section \<open>Python values used by the notebook\<close>

text \<open>
  The development follows the three code cells of
  \<^verbatim>\<open>learn/analytics-and-ml/model-training/gpl/02-negative-mining.ipynb\<close> that hold
  logic of their own: the generator \<^verbatim>\<open>get_text\<close>, the passage upsert loop and the
  negative mining loop. Texts are \<open>string\<close>s, that is the UTF-8 bytes of the Python
  \<^verbatim>\<open>str\<close>: splitting at a tab or a newline, concatenation and equality of texts agree on
  bytes and on code points. Exceptions are values of \<open>error\<close>. The encoder, the vector
  index and the random generator are collaborators outside the notebook: they are
  parameters of the model, and a statement that depends on what one of them returns
  says so in a hypothesis of its own.
\<close>

datatype error = ValueError | IndexError | FileNotFoundError

type_synonym pair = "string \<times> string"

definition tab :: char where
  "tab = CHR 0x09"

definition newline :: char where
  "newline = CHR 0x0A"

text \<open>\<^verbatim>\<open>s.split(sep)\<close> for a separator of one character: never the empty list.\<close>

fun py_split :: "char \<Rightarrow> string \<Rightarrow> string list" where
  "py_split sep [] = [[]]"
| "py_split sep (c # cs) =
     (if c = sep then [] # py_split sep cs
      else (case py_split sep cs of
              [] \<Rightarrow> [[c]]
            | w # ws \<Rightarrow> (c # w) # ws))"

text \<open>\<^verbatim>\<open>sep.join(xs)\<close>.\<close>

fun py_join :: "string \<Rightarrow> string list \<Rightarrow> string" where
  "py_join sep [] = []"
| "py_join sep [x] = x"
| "py_join sep (x # y # ys) = x @ sep @ py_join sep (y # ys)"

text \<open>
  \<^verbatim>\<open>query, passage = line.split(...)\<close>: unpacking a list into two names raises
  \<^verbatim>\<open>ValueError\<close> unless the list has exactly two elements.
\<close>

fun unpack2 :: "string list \<Rightarrow> error + pair" where
  "unpack2 [a, b] = Inr (a, b)"
| "unpack2 parts = Inl ValueError"

text \<open>
  \<^verbatim>\<open>str(i)\<close> of an index \<open>i\<close> of \<^verbatim>\<open>enumerate\<close>, which is never negative: its decimal
  digits, most significant first, no leading zero.
\<close>

definition digit_char :: "nat \<Rightarrow> char" where
  "digit_char d = char_of (48 + d)"

fun py_str :: "nat \<Rightarrow> string" where
  "py_str n = (if n < 10 then [digit_char n] else py_str (n div 10) @ [digit_char (n mod 10)])"

declare py_str.simps [simp del]

text \<open>
  \<^verbatim>\<open>int(s)\<close> on ASCII strings, in base ten: white space around the number is dropped
  (tab, line feed, vertical tab, form feed, carriage return and space, and no other
  character below 128), one sign may come first, and the digits may be separated by
  single underscores. Anything else raises \<^verbatim>\<open>ValueError\<close>, here \<open>None\<close>. The builtin
  also takes the digits and spaces of other scripts, which \<open>py_int\<close> does not: it is
  applied below to the ids \<^verbatim>\<open>str(i)\<close> that the upsert loop makes and in concrete runs,
  and the mining loop takes the conversion as a parameter, so that what is proved of it
  holds of the builtin whatever it returns on other strings. The interpreter's limit on
  the number of digits (4300 by default) is beyond the length of any list of pairs and
  is not modelled.
\<close>

definition is_space :: "char \<Rightarrow> bool" where
  "is_space c \<longleftrightarrow> (9 \<le> (of_char c :: nat) \<and> (of_char c :: nat) \<le> 13) \<or> (of_char c :: nat) = 32"

definition is_digit :: "char \<Rightarrow> bool" where
  "is_digit c \<longleftrightarrow> 48 \<le> (of_char c :: nat) \<and> (of_char c :: nat) \<le> 57"

definition digit_val :: "char \<Rightarrow> nat" where
  "digit_val c = of_char c - 48"

definition strip :: "string \<Rightarrow> string" where
  "strip s = rev (dropWhile is_space (rev (dropWhile is_space s)))"

fun int_digits :: "nat \<Rightarrow> string \<Rightarrow> nat option" where
  "int_digits acc [] = Some acc"
| "int_digits acc (c # cs) =
     (if is_digit c then int_digits (10 * acc + digit_val c) cs
      else if c = CHR ''_'' then
        (case cs of
           [] \<Rightarrow> None
         | d # ds \<Rightarrow> if is_digit d then int_digits (10 * acc + digit_val d) ds else None)
      else None)"

fun int_body :: "string \<Rightarrow> nat option" where
  "int_body [] = None"
| "int_body (c # cs) = (if is_digit c then int_digits (digit_val c) cs else None)"

definition py_int :: "string \<Rightarrow> int option" where
  "py_int s =
     (case strip s of
        [] \<Rightarrow> None
      | c # cs \<Rightarrow>
          if c = CHR ''-'' then map_option (\<lambda>n. - int n) (int_body cs)
          else if c = CHR ''+'' then map_option int (int_body cs)
          else map_option int (int_body (c # cs)))"

text \<open>
  \<^verbatim>\<open>xs[j]\<close>: an index from \<open>- len(xs)\<close> up to \<open>-1\<close> counts from the end of the list, an
  index outside \<open>- len(xs) .. len(xs) - 1\<close> raises \<^verbatim>\<open>IndexError\<close>.
\<close>

definition py_index :: "'a list \<Rightarrow> int \<Rightarrow> error + 'a" where
  "py_index xs j =
     (if 0 \<le> j \<and> j < int (length xs) then Inr (xs ! nat j)
      else if - int (length xs) \<le> j \<and> j < 0 then Inr (xs ! nat (int (length xs) + j))
      else Inl IndexError)"

text \<open>\<^verbatim>\<open>xs[i:j]\<close> for indices that are not negative, and \<^verbatim>\<open>range(0, n, step)\<close>.\<close>

definition py_slice :: "'a list \<Rightarrow> nat \<Rightarrow> nat \<Rightarrow> 'a list" where
  "py_slice xs i j = drop i (take j xs)"

definition py_range :: "nat \<Rightarrow> nat \<Rightarrow> nat list" where
  "py_range n step = map (\<lambda>k. k * step) [0..<(n + step - 1) div step]"

section \<open>The parser \<^verbatim>\<open>get_text\<close>\<close>

text \<open>
  The body of the \<^verbatim>\<open>for line in tqdm(lines)\<close> loop: a line that unpacks yields its
  pair, a \<^verbatim>\<open>ValueError\<close> is caught and the loop goes on with the next line, any other
  exception would leave the generator. The generator is modelled by the list of the
  pairs it yields, in the order it yields them.
\<close>

fun get_text_lines :: "string list \<Rightarrow> error + pair list" where
  "get_text_lines [] = Inr []"
| "get_text_lines (line # lines) =
     (case unpack2 (py_split tab line) of
        Inr (query, passage) \<Rightarrow>
          (case get_text_lines lines of
             Inl e \<Rightarrow> Inl e
           | Inr rest \<Rightarrow> Inr ((query, passage) # rest))
      | Inl ValueError \<Rightarrow> get_text_lines lines
      | Inl e \<Rightarrow> Inl e)"

text \<open>
  The file system is a map from paths to the decoded text of each file. \<^verbatim>\<open>open\<close> of a
  path that does not exist raises \<^verbatim>\<open>FileNotFoundError\<close>, which \<^verbatim>\<open>get_text\<close> does
  not catch.
\<close>

type_synonym files = "string \<rightharpoonup> string"

definition pairs_path :: string where
  "pairs_path = ''data/pairs.tsv''"

definition triplets_path :: string where
  "triplets_path = ''data/triplets.tsv''"

definition get_text :: "files \<Rightarrow> error + pair list" where
  "get_text fs =
     (case fs pairs_path of
        None \<Rightarrow> Inl FileNotFoundError
      | Some contents \<Rightarrow> get_text_lines (py_split newline contents))"

text \<open>
  The words of the specification: a line is well formed when it splits into exactly two
  tab-separated fields, and the pair of a well-formed line is made of these two fields.
\<close>

definition well_formed :: "string \<Rightarrow> bool" where
  "well_formed line = (length (py_split tab line) = 2)"

definition line_pair :: "string \<Rightarrow> pair" where
  "line_pair line = (py_split tab line ! 0, py_split tab line ! 1)"

section \<open>The passage upsert loop\<close>

text \<open>
  The variables of the cell are the fields of the state. The index is outside the
  notebook; what the run does to it is the sequence of its \<^verbatim>\<open>index.upsert\<close> calls, each
  with the list of (id, vector) records it sends, oldest call first. \<^verbatim>\<open>model.encode\<close>
  maps a batch of texts to their vectors, one for each text, by a function \<open>enc\<close> from a
  text to its vector. The list \<^verbatim>\<open>to_upsert\<close> is never read or written after its
  initialisation and is left out.
\<close>

record 'v upsert_state =
  pairs :: "pair list"
  passage_batch :: "string list"
  id_batch :: "string list"
  index :: "(string \<times> 'v) list list"

definition batch_size :: nat where
  "batch_size = 64"

definition initial_state :: "'v upsert_state" where
  "initial_state = \<lparr>pairs = [], passage_batch = [], id_batch = [], index = []\<rparr>"

text \<open>The first half of the loop body: the pair is kept, and its passage is batched
  under \<^verbatim>\<open>str(i)\<close> unless the pending batch holds the same text.\<close>

definition add_pair :: "nat \<Rightarrow> pair \<Rightarrow> 'v upsert_state \<Rightarrow> 'v upsert_state" where
  "add_pair i qp s =
     (let s1 = s\<lparr>pairs := pairs s @ [qp]\<rparr>
      in if snd qp \<notin> set (passage_batch s1)
         then s1\<lparr>passage_batch := passage_batch s1 @ [snd qp],
                 id_batch := id_batch s1 @ [py_str i]\<rparr>
         else s1)"

text \<open>The second half: on reaching \<^verbatim>\<open>batch_size\<close> the batch is encoded and upserted,
  and both batch lists are reset.\<close>

definition flush_batch :: "(string \<Rightarrow> 'v) \<Rightarrow> 'v upsert_state \<Rightarrow> 'v upsert_state" where
  "flush_batch enc s =
     (if length (passage_batch s) = batch_size
      then (let embeds = map enc (passage_batch s)
            in s\<lparr>index := index s @ [zip (id_batch s) embeds],
                 passage_batch := [], id_batch := []\<rparr>)
      else s)"

definition upsert_step :: "(string \<Rightarrow> 'v) \<Rightarrow> 'v upsert_state \<Rightarrow> nat \<times> pair \<Rightarrow> 'v upsert_state" where
  "upsert_step enc s ip = flush_batch enc (add_pair (fst ip) (snd ip) s)"

text \<open>\<^verbatim>\<open>for i, (query, passage) in enumerate(pair_gen)\<close>, from the empty lists.\<close>

definition upsert_loop :: "(string \<Rightarrow> 'v) \<Rightarrow> pair list \<Rightarrow> 'v upsert_state" where
  "upsert_loop enc ps = foldl (upsert_step enc) initial_state (enumerate 0 ps)"

text \<open>The records the index has received, and the records still pending.\<close>

definition upserted :: "'v upsert_state \<Rightarrow> (string \<times> 'v) list" where
  "upserted s = concat (index s)"

definition pending :: "'v upsert_state \<Rightarrow> (string \<times> string) list" where
  "pending s = zip (id_batch s) (passage_batch s)"

section \<open>The negative mining loop\<close>

text \<open>
  A match of \<^verbatim>\<open>index.query\<close> is read only through its \<^verbatim>\<open>'id'\<close>. The lookup
  \<^verbatim>\<open>pairs[int(hit['id'])][1]\<close> raises \<^verbatim>\<open>ValueError\<close> when the id is not a number and
  \<^verbatim>\<open>IndexError\<close> when the number is out of range. The parameter \<open>to_int\<close> is the builtin
  \<^verbatim>\<open>int\<close> on strings, \<open>None\<close> where it raises \<^verbatim>\<open>ValueError\<close>: the functions of the mining
  loop carry it, and the theorems about them hold for every such function.
\<close>

datatype hit = Hit (hit_id: string)

definition neg_lookup :: "(string \<Rightarrow> int option) \<Rightarrow> pair list \<Rightarrow> hit \<Rightarrow> error + string" where
  "neg_lookup to_int prs h =
     (case to_int (hit_id h) of
        None \<Rightarrow> Inl ValueError
      | Some j \<Rightarrow>
          (case py_index prs j of
             Inl e \<Rightarrow> Inl e
           | Inr pr \<Rightarrow> Inr (snd pr)))"

definition triplet_line :: "string \<Rightarrow> string \<Rightarrow> string \<Rightarrow> string" where
  "triplet_line query pos_passage neg_passage =
     query @ [tab] @ pos_passage @ [tab] @ neg_passage"

text \<open>\<^verbatim>\<open>for hit in top_results\<close>, with its \<^verbatim>\<open>break\<close> after the append.\<close>

fun scan_hits ::
  "(string \<Rightarrow> int option) \<Rightarrow> pair list \<Rightarrow> string \<Rightarrow> string \<Rightarrow> hit list \<Rightarrow> string list
     \<Rightarrow> error + string list" where
  "scan_hits to_int prs query pos_passage [] triplets = Inr triplets"
| "scan_hits to_int prs query pos_passage (h # hs) triplets =
     (case neg_lookup to_int prs h of
        Inl e \<Rightarrow> Inl e
      | Inr neg_passage \<Rightarrow>
          if neg_passage \<noteq> pos_passage
          then Inr (triplets @ [triplet_line query pos_passage neg_passage])
          else scan_hits to_int prs query pos_passage hs triplets)"

text \<open>
  \<^verbatim>\<open>for query, pos_passage, query_res in zip(queries, pos_passages, res['results'])\<close>.
  \<^verbatim>\<open>random.shuffle\<close> reorders the matches in place and advances the random generator:
  \<open>shuffle\<close> maps the generator's state and a list to the reordered list and the next state.
\<close>

fun mine_queries ::
  "(string \<Rightarrow> int option) \<Rightarrow> ('r \<Rightarrow> hit list \<Rightarrow> hit list \<times> 'r) \<Rightarrow> pair list
     \<Rightarrow> (string \<times> string \<times> hit list) list \<Rightarrow> 'r \<times> string list \<Rightarrow> error + 'r \<times> string list" where
  "mine_queries to_int shuffle prs [] st = Inr st"
| "mine_queries to_int shuffle prs ((query, pos_passage, top_results) # rest) (rng, triplets) =
     (case shuffle rng top_results of
        (shuffled, rng') \<Rightarrow>
          (case scan_hits to_int prs query pos_passage shuffled triplets of
             Inl e \<Rightarrow> Inl e
           | Inr triplets' \<Rightarrow> mine_queries to_int shuffle prs rest (rng', triplets')))"

definition mining_batch_size :: nat where
  "mining_batch_size = 100"

definition top_k :: nat where
  "top_k = 10"

text \<open>
  One round of the outer loop, at offset \<open>i\<close>. \<open>index_query\<close> is \<^verbatim>\<open>index.query\<close>: from what
  the index has received, the query vectors and \<^verbatim>\<open>top_k\<close> to the matches of each query.
\<close>

definition mine_batch ::
  "(string \<Rightarrow> int option) \<Rightarrow> (string \<Rightarrow> 'v)
     \<Rightarrow> ((string \<times> 'v) list list \<Rightarrow> 'v list \<Rightarrow> nat \<Rightarrow> hit list list)
     \<Rightarrow> ('r \<Rightarrow> hit list \<Rightarrow> hit list \<times> 'r) \<Rightarrow> 'v upsert_state \<Rightarrow> nat
     \<Rightarrow> 'r \<times> string list \<Rightarrow> error + 'r \<times> string list" where
  "mine_batch to_int enc index_query shuffle s i st =
     (let i_end = min (i + mining_batch_size) (length (pairs s));
          queries = map fst (py_slice (pairs s) i i_end);
          pos_passages = map snd (py_slice (pairs s) i i_end);
          query_embs = map enc queries;
          res = index_query (index s) query_embs top_k
      in mine_queries to_int shuffle (pairs s) (zip queries (zip pos_passages res)) st)"

fun mine_batches ::
  "(string \<Rightarrow> int option) \<Rightarrow> (string \<Rightarrow> 'v)
     \<Rightarrow> ((string \<times> 'v) list list \<Rightarrow> 'v list \<Rightarrow> nat \<Rightarrow> hit list list)
     \<Rightarrow> ('r \<Rightarrow> hit list \<Rightarrow> hit list \<times> 'r) \<Rightarrow> 'v upsert_state \<Rightarrow> nat list
     \<Rightarrow> 'r \<times> string list \<Rightarrow> error + 'r \<times> string list" where
  "mine_batches to_int enc index_query shuffle s [] st = Inr st"
| "mine_batches to_int enc index_query shuffle s (i # is) st =
     (case mine_batch to_int enc index_query shuffle s i st of
        Inl e \<Rightarrow> Inl e
      | Inr st' \<Rightarrow> mine_batches to_int enc index_query shuffle s is st')"

text \<open>The list \<^verbatim>\<open>triplets\<close> at the end of the loop over \<^verbatim>\<open>range(0, len(pairs), batch_size)\<close>.\<close>

definition mine ::
  "(string \<Rightarrow> int option) \<Rightarrow> (string \<Rightarrow> 'v)
     \<Rightarrow> ((string \<times> 'v) list list \<Rightarrow> 'v list \<Rightarrow> nat \<Rightarrow> hit list list)
     \<Rightarrow> ('r \<Rightarrow> hit list \<Rightarrow> hit list \<times> 'r) \<Rightarrow> 'v upsert_state \<Rightarrow> 'r \<Rightarrow> error + string list" where
  "mine to_int enc index_query shuffle s rng =
     (case mine_batches to_int enc index_query shuffle s
             (py_range (length (pairs s)) mining_batch_size) (rng, []) of
        Inl e \<Rightarrow> Inl e
      | Inr (rng', triplets) \<Rightarrow> Inr triplets)"

text \<open>The whole cell: the triplets are written to their file, joined by newlines.\<close>

definition mining_cell ::
  "(string \<Rightarrow> int option) \<Rightarrow> (string \<Rightarrow> 'v)
     \<Rightarrow> ((string \<times> 'v) list list \<Rightarrow> 'v list \<Rightarrow> nat \<Rightarrow> hit list list)
     \<Rightarrow> ('r \<Rightarrow> hit list \<Rightarrow> hit list \<times> 'r) \<Rightarrow> 'v upsert_state \<Rightarrow> 'r \<Rightarrow> files \<Rightarrow> error + files" where
  "mining_cell to_int enc index_query shuffle s rng fs =
     (case mine to_int enc index_query shuffle s rng of
        Inl e \<Rightarrow> Inl e
      | Inr triplets \<Rightarrow> Inr (fs(triplets_path \<mapsto> py_join [newline] triplets)))"

text \<open>The cells in the order of the notebook: parse, upsert, mine and write.\<close>

definition run_notebook ::
  "(string \<Rightarrow> int option) \<Rightarrow> (string \<Rightarrow> 'v)
     \<Rightarrow> ((string \<times> 'v) list list \<Rightarrow> 'v list \<Rightarrow> nat \<Rightarrow> hit list list)
     \<Rightarrow> ('r \<Rightarrow> hit list \<Rightarrow> hit list \<times> 'r) \<Rightarrow> 'r \<Rightarrow> files \<Rightarrow> error + files" where
  "run_notebook to_int enc index_query shuffle rng fs =
     (case get_text fs of
        Inl e \<Rightarrow> Inl e
      | Inr ps \<Rightarrow> mining_cell to_int enc index_query shuffle (upsert_loop enc ps) rng fs)"

section \<open>Auxiliary notions for the proofs\<close>

text \<open>
  The invariant of the upsert loop after the pairs \<open>ps\<close>: \<open>js1\<close> are the positions whose
  records the index has received and \<open>js2\<close> the positions whose records are pending,
  both in increasing order, every upserted or pending record is made of the decimal
  string of its position and of the passage at that position, fewer than
  \<^verbatim>\<open>batch_size\<close> records are pending and every upsert call carried \<^verbatim>\<open>batch_size\<close>
  records.
\<close>

definition upsert_inv ::
  "(string \<Rightarrow> 'v) \<Rightarrow> pair list \<Rightarrow> 'v upsert_state \<Rightarrow> nat list \<Rightarrow> nat list \<Rightarrow> bool" where
  "upsert_inv enc ps s js1 js2 \<longleftrightarrow>
     pairs s = ps
     \<and> sorted_wrt (<) (js1 @ js2)
     \<and> (\<forall>j\<in>set (js1 @ js2). j < length ps)
     \<and> upserted s = map (\<lambda>j. (py_str j, enc (snd (ps ! j)))) js1
     \<and> id_batch s = map py_str js2
     \<and> passage_batch s = map (\<lambda>j. snd (ps ! j)) js2
     \<and> length js2 < batch_size
     \<and> (\<forall>b\<in>set (index s). length b = batch_size)"

text \<open>
  What a stretch of the mining loop appends to \<^verbatim>\<open>triplets\<close>: the lines of the selected
  (pair, negative) entries \<open>sel\<close>, each negative a passage of \<open>prs\<close> other than the
  positive of its pair.
\<close>

definition emitted :: "pair list \<Rightarrow> string list \<Rightarrow> (pair \<times> string) list \<Rightarrow> string list \<Rightarrow> bool" where
  "emitted prs ts sel ts' \<longleftrightarrow>
     ts' = ts @ map (\<lambda>(qp, n). triplet_line (fst qp) (snd qp) n) sel
     \<and> (\<forall>(qp, n)\<in>set sel. n \<noteq> snd qp \<and> n \<in> snd ` set prs)"

text \<open>
  The items that the round at offset \<open>i\<close> hands to the per-query loop, for a batch size
  \<open>b\<close> and \<open>k\<close> matches asked of the index: the queries and positives of the slice of
  \<^verbatim>\<open>pairs\<close> at \<open>i\<close>, each with the matches the index returns for it.
\<close>

definition batch_items ::
  "(string \<Rightarrow> 'v) \<Rightarrow> ((string \<times> 'v) list list \<Rightarrow> 'v list \<Rightarrow> nat \<Rightarrow> hit list list)
     \<Rightarrow> 'v upsert_state \<Rightarrow> nat \<Rightarrow> nat \<Rightarrow> nat \<Rightarrow> (string \<times> string \<times> hit list) list" where
  "batch_items enc index_query s b k i =
     zip (map fst (py_slice (pairs s) i (min (i + b) (length (pairs s)))))
       (zip (map snd (py_slice (pairs s) i (min (i + b) (length (pairs s)))))
          (index_query (index s)
             (map enc (map fst (py_slice (pairs s) i (min (i + b) (length (pairs s)))))) k))"

section \<open>Example inputs\<close>

text \<open>
  Concrete inputs on which the theorems below are instantiated: two pairs, an index
  that answers every query with the ids \<open>0\<close> and \<open>1\<close>, a shuffle that reverses the
  matches, and \<open>n\<close> pairs whose passages are the decimal strings of \<open>0, 1, \<dots>\<close> repeating
  with period \<open>m\<close>.
\<close>

definition example_pairs :: "pair list" where
  "example_pairs = [(''q0'', ''p0''), (''q1'', ''p1'')]"

definition example_query :: "(string \<times> string) list list \<Rightarrow> string list \<Rightarrow> nat \<Rightarrow> hit list list" where
  "example_query ix vecs k = map (\<lambda>v. take k [Hit ''0'', Hit ''1'']) vecs"

definition example_shuffle :: "nat \<Rightarrow> hit list \<Rightarrow> hit list \<times> nat" where
  "example_shuffle r hs = (rev hs, Suc r)"

definition numbered_pairs :: "nat \<Rightarrow> nat \<Rightarrow> pair list" where
  "numbered_pairs m n = map (\<lambda>k. (''q'', py_str (k mod m))) [0..<n]"

section \<open>Properties of the parser\<close>

lemma py_split_not_Nil: "py_split sep s \<noteq> []"
  by (induction s) (auto split: list.splits)

lemma unpack2_Inr_iff: "unpack2 parts = Inr (a, b) \<longleftrightarrow> parts = [a, b]"
  by (cases parts rule: unpack2.cases) auto

lemma unpack2_Inl: "unpack2 parts = Inl e \<Longrightarrow> e = ValueError \<and> length parts \<noteq> 2"
  by (cases parts rule: unpack2.cases) auto

lemma get_text_lines_filter:
  "get_text_lines lines = Inr (map line_pair (filter well_formed lines))"
proof (induction lines)
  case Nil
  show ?case by simp
next
  case (Cons line lines)
  show ?case
  proof (cases "unpack2 (py_split tab line)")
    case (Inl e)
    then have "e = ValueError" and "\<not> well_formed line"
      using unpack2_Inl [of "py_split tab line" e] by (simp_all add: well_formed_def)
    with Inl Cons show ?thesis by simp
  next
    case (Inr qp)
    obtain q p where qp: "qp = (q, p)" by (cases qp)
    with Inr have parts: "py_split tab line = [q, p]"
      by (simp add: unpack2_Inr_iff)
    then have "well_formed line" and "line_pair line = (q, p)"
      by (simp_all add: well_formed_def line_pair_def)
    with Inr qp Cons show ?thesis by simp
  qed
qed

text \<open>
  C6. On a file that exists the parser returns normally whatever its lines are: no line
  aborts it. The pairs it yields are the pairs of the well-formed lines, one for each,
  in the order of the lines, and their number is the number of well-formed lines.
\<close>

theorem get_text_skips_malformed:
  "fs pairs_path = Some contents \<Longrightarrow>
     \<exists>ps. get_text fs = Inr ps
        \<and> ps = map line_pair (filter well_formed (py_split newline contents))
        \<and> length ps = length (filter well_formed (py_split newline contents))"
  by (simp add: get_text_def get_text_lines_filter)

theorem get_text_skips_malformed_witness:
  "get_text [pairs_path \<mapsto> ''q1'' @ [tab] @ ''p1'' @ [newline] @ ''broken'' @ [newline]
       @ ''a'' @ [tab] @ ''b'' @ [tab] @ ''c'' @ [newline] @ ''q2'' @ [tab] @ ''p2'' @ [newline]]
     = Inr [(''q1'', ''p1''), (''q2'', ''p2'')]"
  using get_text_skips_malformed
    [of "[pairs_path \<mapsto> ''q1'' @ [tab] @ ''p1'' @ [newline] @ ''broken'' @ [newline]
       @ ''a'' @ [tab] @ ''b'' @ [tab] @ ''c'' @ [newline] @ ''q2'' @ [tab] @ ''p2'' @ [newline]]"
     "''q1'' @ [tab] @ ''p1'' @ [newline] @ ''broken'' @ [newline]
       @ ''a'' @ [tab] @ ''b'' @ [tab] @ ''c'' @ [newline] @ ''q2'' @ [tab] @ ''p2'' @ [newline]"]
  by (simp add: well_formed_def line_pair_def tab_def newline_def)

text \<open>
  C10. The pair sequence is a function of the contents of the pairs file alone: two runs
  of the parser on file systems that agree on that file return the same result, whatever
  else differs between them. A run of the whole notebook writes the triplets file only,
  so the parser run again after it returns what it returned before.
\<close>

theorem get_text_deterministic:
  "(fs pairs_path = fs' pairs_path \<longrightarrow> get_text fs = get_text fs')
   \<and> (run_notebook to_int enc index_query shuffle rng fs = Inr fs' \<longrightarrow> get_text fs' = get_text fs)"
proof (intro conjI impI)
  assume "fs pairs_path = fs' pairs_path"
  then show "get_text fs = get_text fs'"
    by (simp add: get_text_def)
next
  assume "run_notebook to_int enc index_query shuffle rng fs = Inr fs'"
  then obtain out where "fs' = fs(triplets_path \<mapsto> out)"
    by (auto simp: run_notebook_def mining_cell_def split: sum.splits)
  moreover have "triplets_path \<noteq> pairs_path"
    by (simp add: triplets_path_def pairs_path_def)
  ultimately show "get_text fs' = get_text fs"
    by (simp add: get_text_def)
qed

theorem get_text_deterministic_witness:
  "[pairs_path \<mapsto> ''q'' @ [tab] @ ''p''] pairs_path
     = [pairs_path \<mapsto> ''q'' @ [tab] @ ''p'', triplets_path \<mapsto> ''old''] pairs_path
   \<and> get_text [pairs_path \<mapsto> ''q'' @ [tab] @ ''p'']
       = get_text [pairs_path \<mapsto> ''q'' @ [tab] @ ''p'', triplets_path \<mapsto> ''old'']
   \<and> get_text [pairs_path \<mapsto> ''q'' @ [tab] @ ''p''] = Inr [(''q'', ''p'')]
   \<and> run_notebook py_int (\<lambda>p. p) (\<lambda>ix vecs k. []) example_shuffle 0 [pairs_path \<mapsto> ''q'' @ [tab] @ ''p'']
       = Inr [pairs_path \<mapsto> ''q'' @ [tab] @ ''p'', triplets_path \<mapsto> []]
   \<and> get_text [pairs_path \<mapsto> ''q'' @ [tab] @ ''p'', triplets_path \<mapsto> []] = Inr [(''q'', ''p'')]"
proof -
  let ?fs = "[pairs_path \<mapsto> ''q'' @ [tab] @ ''p'']"
  have same: "?fs pairs_path = (?fs(triplets_path \<mapsto> ''old'')) pairs_path"
    by (simp add: pairs_path_def triplets_path_def)
  have parse: "get_text ?fs = Inr [(''q'', ''p'')]"
    by (simp add: get_text_def tab_def newline_def)
  have "mine py_int (\<lambda>p. p) (\<lambda>ix vecs k. []) example_shuffle (upsert_loop (\<lambda>p. p) [(''q'', ''p'')]) 0 = Inr []"
    by code_simp
  then have run: "run_notebook py_int (\<lambda>p. p) (\<lambda>ix vecs k. []) example_shuffle 0 ?fs
      = Inr (?fs(triplets_path \<mapsto> []))"
    unfolding run_notebook_def parse mining_cell_def by simp
  note t = get_text_deterministic
    [of ?fs _ py_int "\<lambda>p. p" "\<lambda>ix vecs k. []" example_shuffle 0]
  from t [of "?fs(triplets_path \<mapsto> ''old'')"] same
  have a: "get_text ?fs = get_text (?fs(triplets_path \<mapsto> ''old''))" by blast
  from t [of "?fs(triplets_path \<mapsto> [])"] run parse
  have b: "get_text (?fs(triplets_path \<mapsto> [])) = Inr [(''q'', ''p'')]" by simp
  from same a parse run b show ?thesis by (intro conjI)
qed

section \<open>Decimal ids\<close>

lemma digit_char_props:
  "d < 10 \<Longrightarrow> is_digit (digit_char d) \<and> digit_val (digit_char d) = d"
  by (simp add: is_digit_def digit_val_def digit_char_def)

lemma dropWhile_hd: "s \<noteq> [] \<Longrightarrow> \<not> P (hd s) \<Longrightarrow> dropWhile P s = s"
  by (cases s) auto

lemma int_digits_all:
  "\<forall>c\<in>set ds. is_digit c \<Longrightarrow> int_digits acc ds = Some (foldl (\<lambda>a c. 10 * a + digit_val c) acc ds)"
  by (induction ds arbitrary: acc) auto

lemma py_str_digits: "\<forall>c\<in>set (py_str n). is_digit c"
proof (induction n rule: py_str.induct)
  case (1 n)
  then show ?case
    by (subst py_str.simps) (auto simp: digit_char_props)
qed

lemma py_str_not_Nil: "py_str n \<noteq> []"
  by (subst py_str.simps) simp

lemma py_str_value: "foldl (\<lambda>a c. 10 * a + digit_val c) 0 (py_str n) = n"
proof (induction n rule: py_str.induct)
  case (1 n)
  show ?case
  proof (cases "n < 10")
    case True
    then show ?thesis by (subst py_str.simps) (simp add: digit_char_props)
  next
    case False
    with 1 show ?thesis by (subst py_str.simps) (simp add: digit_char_props)
  qed
qed

lemma strip_digits:
  assumes "s \<noteq> []" and "\<forall>c\<in>set s. is_digit c"
  shows "strip s = s"
proof -
  have ns: "\<And>c. is_digit c \<Longrightarrow> \<not> is_space c"
    by (auto simp: is_digit_def is_space_def)
  from assms ns have "\<not> is_space (hd s)" and "\<not> is_space (last s)"
    by auto
  with assms(1) show ?thesis
    by (simp add: strip_def dropWhile_hd hd_rev)
qed

lemma py_int_py_str: "py_int (py_str n) = Some (int n)"
proof -
  obtain c cs where s: "py_str n = c # cs"
    using py_str_not_Nil [of n] by (cases "py_str n") auto
  have dig: "\<forall>c\<in>set (py_str n). is_digit c" by (rule py_str_digits)
  have strip: "strip (py_str n) = c # cs"
    using strip_digits [OF py_str_not_Nil dig] s by simp
  from dig s have c: "is_digit c" and cs: "\<forall>c\<in>set cs. is_digit c" by auto
  from c have nosign: "c \<noteq> CHR ''-''" "c \<noteq> CHR ''+''"
    by (auto simp: is_digit_def)
  have "int_body (c # cs) = Some (foldl (\<lambda>a c. 10 * a + digit_val c) 0 (c # cs))"
    using c int_digits_all [OF cs] by simp
  then have "int_body (c # cs) = Some n"
    using py_str_value [of n] s by simp
  with strip nosign show ?thesis by (simp add: py_int_def)
qed

lemma py_str_inj:
  assumes "py_str m = py_str n"
  shows "m = n"
proof -
  have "py_int (py_str m) = py_int (py_str n)"
    using assms by (rule arg_cong)
  then show ?thesis
    unfolding py_int_py_str by simp
qed

section \<open>The invariant of the upsert loop\<close>

lemma upsert_loop_snoc:
  "upsert_loop enc (ps @ [qp]) = flush_batch enc (add_pair (length ps) qp (upsert_loop enc ps))"
  by (simp add: upsert_loop_def enumerate_append_eq upsert_step_def)

lemma upsert_loop_Nil: "upsert_loop enc [] = initial_state"
  by (simp add: upsert_loop_def)

lemma zip_map_same: "zip (map f xs) (map g xs) = map (\<lambda>x. (f x, g x)) xs"
  by (induction xs) auto

lemma upsert_inv_initial: "upsert_inv enc [] initial_state [] []"
  by (simp add: upsert_inv_def initial_state_def upserted_def batch_size_def)

lemma upsert_inv_add_old:
  assumes "upsert_inv enc ps s js1 js2" and "snd qp \<in> set (passage_batch s)"
  shows "add_pair (length ps) qp s = s\<lparr>pairs := ps @ [qp]\<rparr>"
    and "upsert_inv enc (ps @ [qp]) (add_pair (length ps) qp s) js1 js2"
proof -
  show eq: "add_pair (length ps) qp s = s\<lparr>pairs := ps @ [qp]\<rparr>"
    using assms by (simp add: add_pair_def upsert_inv_def)
  from assms(1) have lt: "\<forall>j\<in>set js1. j < length ps" "\<forall>j\<in>set js2. j < length ps"
    by (auto simp: upsert_inv_def)
  show "upsert_inv enc (ps @ [qp]) (add_pair (length ps) qp s) js1 js2"
    unfolding eq using assms(1) lt
    by (fastforce simp: upsert_inv_def upserted_def nth_append intro: less_SucI)
qed

lemma upsert_inv_add_new:
  assumes "upsert_inv enc ps s js1 js2" and "snd qp \<notin> set (passage_batch s)"
  shows "add_pair (length ps) qp s
           = s\<lparr>pairs := ps @ [qp], passage_batch := passage_batch s @ [snd qp],
                id_batch := id_batch s @ [py_str (length ps)]\<rparr>"
    and "pairs (add_pair (length ps) qp s) = ps @ [qp]"
    and "sorted_wrt (<) (js1 @ js2 @ [length ps])"
    and "upserted (add_pair (length ps) qp s) = map (\<lambda>j. (py_str j, enc (snd ((ps @ [qp]) ! j)))) js1"
    and "id_batch (add_pair (length ps) qp s) = map py_str (js2 @ [length ps])"
    and "passage_batch (add_pair (length ps) qp s) = map (\<lambda>j. snd ((ps @ [qp]) ! j)) (js2 @ [length ps])"
    and "index (add_pair (length ps) qp s) = index s"
proof -
  show eq: "add_pair (length ps) qp s
           = s\<lparr>pairs := ps @ [qp], passage_batch := passage_batch s @ [snd qp],
                id_batch := id_batch s @ [py_str (length ps)]\<rparr>"
    using assms by (simp add: add_pair_def upsert_inv_def)
  from assms(1) have lt: "\<forall>j\<in>set js1. j < length ps" "\<forall>j\<in>set js2. j < length ps"
    by (auto simp: upsert_inv_def)
  show "pairs (add_pair (length ps) qp s) = ps @ [qp]" by (simp add: eq)
  show "sorted_wrt (<) (js1 @ js2 @ [length ps])"
    using assms(1) lt by (auto simp: upsert_inv_def sorted_wrt_append)
  show "upserted (add_pair (length ps) qp s) = map (\<lambda>j. (py_str j, enc (snd ((ps @ [qp]) ! j)))) js1"
    using assms(1) lt(1) by (simp add: eq upsert_inv_def upserted_def nth_append)
  show "id_batch (add_pair (length ps) qp s) = map py_str (js2 @ [length ps])"
    using assms(1) by (simp add: eq upsert_inv_def)
  show "passage_batch (add_pair (length ps) qp s) = map (\<lambda>j. snd ((ps @ [qp]) ! j)) (js2 @ [length ps])"
    using assms(1) lt(2) by (simp add: eq upsert_inv_def nth_append)
  show "index (add_pair (length ps) qp s) = index s" by (simp add: eq)
qed

lemma upsert_inv_step:
  assumes inv: "upsert_inv enc ps s js1 js2"
  shows "\<exists>js1' js2'. upsert_inv enc (ps @ [qp]) (flush_batch enc (add_pair (length ps) qp s)) js1' js2'"
proof (cases "snd qp \<in> set (passage_batch s)")
  case True
  note old = upsert_inv_add_old [OF inv True]
  from old(2) have "length (passage_batch (add_pair (length ps) qp s)) \<noteq> batch_size"
    by (auto simp: upsert_inv_def)
  then have "flush_batch enc (add_pair (length ps) qp s) = add_pair (length ps) qp s"
    by (simp add: flush_batch_def)
  with old(2) show ?thesis by auto
next
  case False
  note new = upsert_inv_add_new [OF inv False]
  let ?m = "add_pair (length ps) qp s"
  let ?ps = "ps @ [qp]"
  from inv have lt: "\<forall>j\<in>set (js1 @ js2 @ [length ps]). j < length ?ps"
    by (fastforce simp: upsert_inv_def intro: less_SucI)
  from inv have sz: "\<forall>b\<in>set (index ?m). length b = batch_size"
    by (simp add: new(7) upsert_inv_def)
  show ?thesis
  proof (cases "length (js2 @ [length ps]) = batch_size")
    case True
    then have full: "length (passage_batch ?m) = batch_size"
      by (simp add: new(6))
    have f: "flush_batch enc ?m
        = ?m\<lparr>index := index ?m @ [zip (id_batch ?m) (map enc (passage_batch ?m))],
              passage_batch := [], id_batch := []\<rparr>"
      using full by (simp add: flush_batch_def)
    have z: "zip (id_batch ?m) (map enc (passage_batch ?m))
        = map (\<lambda>j. (py_str j, enc (snd (?ps ! j)))) (js2 @ [length ps])"
      unfolding new(5) new(6) map_map zip_map_same by (simp add: comp_def)
    have "upsert_inv enc ?ps (flush_batch enc ?m) (js1 @ js2 @ [length ps]) []"
      unfolding upsert_inv_def
    proof (intro conjI)
      show "pairs (flush_batch enc ?m) = ?ps" by (simp add: f new(2))
      show "sorted_wrt (<) ((js1 @ js2 @ [length ps]) @ [])" using new(3) by simp
      show "\<forall>j\<in>set ((js1 @ js2 @ [length ps]) @ []). j < length ?ps" using lt by simp
      show "upserted (flush_batch enc ?m)
          = map (\<lambda>j. (py_str j, enc (snd (?ps ! j)))) (js1 @ js2 @ [length ps])"
        using new(4) z True by (simp add: f upserted_def)
      show "id_batch (flush_batch enc ?m) = map py_str []" by (simp add: f)
      show "passage_batch (flush_batch enc ?m) = map (\<lambda>j. snd (?ps ! j)) []" by (simp add: f)
      show "length ([]::nat list) < batch_size" by (simp add: batch_size_def)
      show "\<forall>b\<in>set (index (flush_batch enc ?m)). length b = batch_size"
        using sz z True by (simp add: f)
    qed
    then show ?thesis by blast
  next
    case False
    then have nf: "length (passage_batch ?m) \<noteq> batch_size"
      by (simp add: new(6))
    then have f: "flush_batch enc ?m = ?m" by (simp add: flush_batch_def)
    from inv False have "length (js2 @ [length ps]) < batch_size"
      by (auto simp: upsert_inv_def)
    then have "upsert_inv enc ?ps (flush_batch enc ?m) js1 (js2 @ [length ps])"
      unfolding upsert_inv_def f using new lt sz by simp
    then show ?thesis by blast
  qed
qed

lemma upsert_loop_inv: "\<exists>js1 js2. upsert_inv enc ps (upsert_loop enc ps) js1 js2"
proof (induction ps rule: rev_induct)
  case Nil
  show ?case using upsert_inv_initial by (auto simp: upsert_loop_Nil)
next
  case (snoc qp ps)
  then obtain js1 js2 where "upsert_inv enc ps (upsert_loop enc ps) js1 js2" by blast
  from upsert_inv_step [OF this] show ?case by (simp add: upsert_loop_snoc)
qed

lemma upsert_loop_take_Suc:
  "i < length ps \<Longrightarrow>
     upsert_loop enc (take (Suc i) ps)
       = flush_batch enc (add_pair i (ps ! i) (upsert_loop enc (take i ps)))"
  using upsert_loop_snoc [of enc "take i ps" "ps ! i"]
  by (simp add: take_Suc_conv_app_nth)

lemma upsert_loop_lengths:
  "length (id_batch (upsert_loop enc ps)) = length (passage_batch (upsert_loop enc ps))"
  "length (passage_batch (upsert_loop enc ps)) < batch_size"
  "\<forall>b\<in>set (index (upsert_loop enc ps)). length b = batch_size"
  "pairs (upsert_loop enc ps) = ps"
  using upsert_loop_inv [of enc ps] by (auto simp: upsert_inv_def)

lemma upsert_loop_pending_fresh:
  "set (id_batch (upsert_loop enc ps)) \<inter> fst ` set (upserted (upsert_loop enc ps)) = {}"
proof -
  obtain js1 js2 where inv: "upsert_inv enc ps (upsert_loop enc ps) js1 js2"
    using upsert_loop_inv by blast
  then have "sorted_wrt (<) (js1 @ js2)" by (simp add: upsert_inv_def)
  then have disj: "set js1 \<inter> set js2 = {}"
    by (auto simp: sorted_wrt_append)
  from inv have a: "set (id_batch (upsert_loop enc ps)) = py_str ` set js2"
    and b: "fst ` set (upserted (upsert_loop enc ps)) = py_str ` set js1"
    by (auto simp: upsert_inv_def image_image)
  from disj show ?thesis unfolding a b by (auto dest: py_str_inj)
qed

section \<open>Properties of the upsert loop\<close>

text \<open>
  C7. Round \<open>i\<close> of the loop over the pairs \<open>ps\<close> starts in the state reached on the
  first \<open>i\<close> pairs. When the passage of pair \<open>i\<close> is not in the pending batch there, the
  first half of the round appends exactly one record to the pending records: the id
  \<^verbatim>\<open>str(i)\<close>, which reads back as the number \<open>i\<close>, with that passage; \<open>i\<close> is the position
  of the pair in \<^verbatim>\<open>pairs\<close>. The round then ends with the batch-size check.
\<close>

theorem new_passage_id_is_position:
  assumes "i < length ps"
    and "snd (ps ! i) \<notin> set (passage_batch (upsert_loop enc (take i ps)))"
  shows "pending (add_pair i (ps ! i) (upsert_loop enc (take i ps)))
           = pending (upsert_loop enc (take i ps)) @ [(py_str i, snd (ps ! i))]
       \<and> py_int (py_str i) = Some (int i)
       \<and> pairs (add_pair i (ps ! i) (upsert_loop enc (take i ps))) ! i = ps ! i
       \<and> upsert_loop enc (take (Suc i) ps)
           = flush_batch enc (add_pair i (ps ! i) (upsert_loop enc (take i ps)))"
proof -
  let ?s = "upsert_loop enc (take i ps)"
  have len: "length (id_batch ?s) = length (passage_batch ?s)"
    by (rule upsert_loop_lengths)
  have prs: "pairs ?s = take i ps" by (rule upsert_loop_lengths)
  have "pending (add_pair i (ps ! i) ?s) = pending ?s @ [(py_str i, snd (ps ! i))]"
    using assms(2) len by (simp add: add_pair_def pending_def)
  moreover have "pairs (add_pair i (ps ! i) ?s) ! i = ps ! i"
    using assms(1) prs by (simp add: add_pair_def Let_def nth_append)
  ultimately show ?thesis
    using upsert_loop_take_Suc [OF assms(1)] py_int_py_str by simp
qed

theorem new_passage_id_is_position_witness:
  "1 < length example_pairs
   \<and> snd (example_pairs ! 1) \<notin> set (passage_batch (upsert_loop (\<lambda>p. p) (take 1 example_pairs)))
   \<and> pending (add_pair 1 (example_pairs ! 1) (upsert_loop (\<lambda>p. p) (take 1 example_pairs)))
       = [(''0'', ''p0''), (''1'', ''p1'')]"
proof -
  have h1: "1 < length example_pairs" by (simp add: example_pairs_def)
  have h2: "snd (example_pairs ! 1) \<notin> set (passage_batch (upsert_loop (\<lambda>p. p) (take 1 example_pairs)))"
    by code_simp
  have e: "pending (upsert_loop (\<lambda>p. p) (take 1 example_pairs)) @ [(py_str 1, snd (example_pairs ! 1))]
      = [(''0'', ''p0''), (''1'', ''p1'')]"
    by code_simp
  from new_passage_id_is_position [OF h1 h2] h1 h2 e show ?thesis by simp
qed

text \<open>
  C4. In every round of the loop the pending batch has at most 64 passages after the
  append; the round ends by sending the whole batch in one upsert call and clearing both
  batch lists when the batch has exactly 64 passages, and by doing nothing otherwise.
  So every upsert call of a run carries 64 records. At the end of the input fewer than
  64 records are pending, and none of their ids has been sent to the index: nothing
  after the loop sends them.
\<close>

theorem flush_exactly_at_batch_size:
  "(\<forall>i<length ps.
      length (passage_batch (add_pair i (ps ! i) (upsert_loop enc (take i ps)))) \<le> 64
      \<and> upsert_loop enc (take (Suc i) ps)
          = (if length (passage_batch (add_pair i (ps ! i) (upsert_loop enc (take i ps)))) = 64
             then (add_pair i (ps ! i) (upsert_loop enc (take i ps)))
                    \<lparr>index := index (add_pair i (ps ! i) (upsert_loop enc (take i ps)))
                        @ [zip (id_batch (add_pair i (ps ! i) (upsert_loop enc (take i ps))))
                             (map enc (passage_batch (add_pair i (ps ! i) (upsert_loop enc (take i ps)))))],
                      passage_batch := [], id_batch := []\<rparr>
             else add_pair i (ps ! i) (upsert_loop enc (take i ps))))
   \<and> (\<forall>b\<in>set (index (upsert_loop enc ps)). length b = 64)
   \<and> length (pending (upsert_loop enc ps)) < 64
   \<and> fst ` set (pending (upsert_loop enc ps)) \<inter> fst ` set (upserted (upsert_loop enc ps)) = {}"
proof (intro conjI allI impI)
  fix i assume i: "i < length ps"
  let ?s = "upsert_loop enc (take i ps)"
  have "length (passage_batch ?s) < 64"
    using upsert_loop_lengths(2) [of enc "take i ps"] by (simp add: batch_size_def)
  then show "length (passage_batch (add_pair i (ps ! i) ?s)) \<le> 64"
    by (simp add: add_pair_def Let_def)
  show "upsert_loop enc (take (Suc i) ps)
          = (if length (passage_batch (add_pair i (ps ! i) ?s)) = 64
             then (add_pair i (ps ! i) ?s)
                    \<lparr>index := index (add_pair i (ps ! i) ?s)
                        @ [zip (id_batch (add_pair i (ps ! i) ?s))
                             (map enc (passage_batch (add_pair i (ps ! i) ?s)))],
                      passage_batch := [], id_batch := []\<rparr>
             else add_pair i (ps ! i) ?s)"
    unfolding upsert_loop_take_Suc [OF i] by (simp add: flush_batch_def batch_size_def)
next
  show "\<forall>b\<in>set (index (upsert_loop enc ps)). length b = 64"
    using upsert_loop_lengths(3) [of enc ps] by (simp add: batch_size_def)
next
  show "length (pending (upsert_loop enc ps)) < 64"
    using upsert_loop_lengths(1,2) [of enc ps] by (simp add: pending_def batch_size_def)
next
  have "fst ` set (pending (upsert_loop enc ps)) = set (id_batch (upsert_loop enc ps))"
    using upsert_loop_lengths(1) [of enc ps] by (simp add: pending_def flip: set_map)
  then show "fst ` set (pending (upsert_loop enc ps)) \<inter> fst ` set (upserted (upsert_loop enc ps)) = {}"
    using upsert_loop_pending_fresh [of enc ps] by simp
qed

theorem flush_exactly_at_batch_size_witness:
  "63 < length (numbered_pairs 65 65)
   \<and> length (passage_batch (add_pair 63 (numbered_pairs 65 65 ! 63)
        (upsert_loop (\<lambda>p. p) (take 63 (numbered_pairs 65 65))))) = 64
   \<and> passage_batch (upsert_loop (\<lambda>p. p) (take 64 (numbered_pairs 65 65))) = []
   \<and> id_batch (upsert_loop (\<lambda>p. p) (take 64 (numbered_pairs 65 65))) = []
   \<and> pending (upsert_loop (\<lambda>p. p) (numbered_pairs 65 65)) = [(''64'', ''64'')]
   \<and> ''64'' \<notin> fst ` set (upserted (upsert_loop (\<lambda>p. p) (numbered_pairs 65 65)))"
proof -
  let ?ps = "numbered_pairs 65 65"
  let ?mid = "add_pair 63 (?ps ! 63) (upsert_loop (\<lambda>p. p) (take 63 ?ps))"
  have h: "63 < length ?ps" by (simp add: numbered_pairs_def)
  have full: "length (passage_batch ?mid) = 64" by code_simp
  have pend: "pending (upsert_loop (\<lambda>p. p) ?ps) = [(''64'', ''64'')]" by code_simp
  note t = flush_exactly_at_batch_size [of ?ps "\<lambda>p. p"]
  from t h have "upsert_loop (\<lambda>p. p) (take (Suc 63) ?ps)
      = (if length (passage_batch ?mid) = 64
         then ?mid\<lparr>index := index ?mid @ [zip (id_batch ?mid) (map (\<lambda>p. p) (passage_batch ?mid))],
                    passage_batch := [], id_batch := []\<rparr>
         else ?mid)"
    by blast
  with full have cleared: "passage_batch (upsert_loop (\<lambda>p. p) (take 64 ?ps)) = []"
      "id_batch (upsert_loop (\<lambda>p. p) (take 64 ?ps)) = []"
    by simp_all
  from t have "fst ` set (pending (upsert_loop (\<lambda>p. p) ?ps))
      \<inter> fst ` set (upserted (upsert_loop (\<lambda>p. p) ?ps)) = {}"
    by blast
  with pend have "''64'' \<notin> fst ` set (upserted (upsert_loop (\<lambda>p. p) ?ps))"
    by simp
  with h full cleared pend show ?thesis by blast
qed

text \<open>
  C9. Every record (id, vector) that a run upserts has as id the decimal string of a
  position \<open>i\<close> of the run's \<^verbatim>\<open>pairs\<close> list, \<^verbatim>\<open>int(id)\<close> is \<open>i\<close>, the vector is the
  encoding of the passage at position \<open>i\<close>, and the lookup \<^verbatim>\<open>pairs[int(id)][1]\<close> of the
  mining loop returns that passage without raising.
\<close>

theorem upserted_ids_in_range:
  assumes "(ident, v) \<in> set (upserted (upsert_loop enc ps))"
  shows "\<exists>i<length (pairs (upsert_loop enc ps)).
           ident = py_str i \<and> py_int ident = Some (int i)
         \<and> v = enc (snd (pairs (upsert_loop enc ps) ! i))
         \<and> neg_lookup py_int (pairs (upsert_loop enc ps)) (Hit ident)
             = Inr (snd (pairs (upsert_loop enc ps) ! i))"
proof -
  obtain js1 js2 where inv: "upsert_inv enc ps (upsert_loop enc ps) js1 js2"
    using upsert_loop_inv by blast
  then have prs: "pairs (upsert_loop enc ps) = ps" by (simp add: upsert_inv_def)
  from inv assms obtain i where i: "i \<in> set js1" "ident = py_str i" "v = enc (snd (ps ! i))"
    by (auto simp: upsert_inv_def)
  with inv have lt: "i < length ps" by (simp add: upsert_inv_def)
  then have "neg_lookup py_int ps (Hit ident) = Inr (snd (ps ! i))"
    by (simp add: neg_lookup_def i(2) py_int_py_str py_index_def)
  with i lt show ?thesis
    unfolding prs by (auto simp: py_int_py_str)
qed

theorem upserted_ids_in_range_witness:
  "(''63'', ''63'') \<in> set (upserted (upsert_loop (\<lambda>p. p) (numbered_pairs 64 64)))
   \<and> (\<exists>i<length (pairs (upsert_loop (\<lambda>p. p) (numbered_pairs 64 64))).
         ''63'' = py_str i \<and> py_int ''63'' = Some (int i)
       \<and> neg_lookup py_int (pairs (upsert_loop (\<lambda>p. p) (numbered_pairs 64 64))) (Hit ''63'')
           = Inr (snd (pairs (upsert_loop (\<lambda>p. p) (numbered_pairs 64 64)) ! i)))"
proof -
  have h: "(''63'', ''63'') \<in> set (upserted (upsert_loop (\<lambda>p. p) (numbered_pairs 64 64)))"
    by code_simp
  from upserted_ids_in_range [OF h] h show ?thesis by blast
qed

text \<open>
  C1. The membership test of the loop looks at the pending batch only, and the batch is
  emptied by every upsert. On 128 pairs whose passages are 64 distinct texts, each
  occurring twice at distance 64, the run upserts 128 records, one for every pair: the
  passage at position \<open>k mod 64\<close> is sent under the id of \<open>k\<close> for every \<open>k\<close> below 128, so
  the text \<open>0\<close> is stored under the ids \<open>0\<close> and \<open>64\<close>.
\<close>

theorem duplicate_passage_upserted_twice:
  "length (remdups (map snd (numbered_pairs 64 128))) = 64
   \<and> upserted (upsert_loop (\<lambda>p. p) (numbered_pairs 64 128))
       = map (\<lambda>k. (py_str k, py_str (k mod 64))) [0..<128]"
  by code_simp

section \<open>Properties of the mining loop\<close>

lemma neg_lookup_pool: "neg_lookup to_int prs h = Inr n \<Longrightarrow> n \<in> snd ` set prs"
  by (auto simp: neg_lookup_def py_index_def split: option.splits if_splits)

lemma scan_hits_cases:
  "scan_hits to_int prs q p hs ts = Inr ts' \<Longrightarrow>
     ts' = ts \<or> (\<exists>n. ts' = ts @ [triplet_line q p n] \<and> n \<noteq> p \<and> n \<in> snd ` set prs)"
proof (induction hs)
  case Nil
  then show ?case by simp
next
  case (Cons h hs)
  then show ?case
    by (auto split: sum.splits if_splits dest: neg_lookup_pool)
qed


lemma emitted_refl: "emitted prs ts [] ts"
  by (simp add: emitted_def)

lemma emitted_trans:
  "emitted prs ts sel1 ts1 \<Longrightarrow> emitted prs ts1 sel2 ts2 \<Longrightarrow> emitted prs ts (sel1 @ sel2) ts2"
  by (auto simp: emitted_def)

lemma emitted_length:
  "emitted prs ts sel ts' \<Longrightarrow> subseq (map fst sel) xs \<Longrightarrow> length ts' \<le> length ts + length xs"
  using list_emb_length [of "(=)" "map fst sel" xs]
  by (simp add: emitted_def)

lemma subseq_mem:
  assumes "subseq xs ys" and "x \<in> set xs"
  shows "x \<in> set ys"
  using list_emb_set [OF assms] by blast

lemma emitted_set:
  assumes "emitted prs [] sel triplets" and "subseq (map fst sel) prs" and "t \<in> set triplets"
  shows "\<exists>query pos neg. t = triplet_line query pos neg \<and> (query, pos) \<in> set prs
           \<and> neg \<in> snd ` set prs \<and> neg \<noteq> pos"
proof -
  from assms(1,3) obtain qp n where
    mem: "(qp, n) \<in> set sel" and t: "t = triplet_line (fst qp) (snd qp) n"
    by (auto simp: emitted_def)
  from mem assms(1) have n: "n \<noteq> snd qp" "n \<in> snd ` set prs"
    by (auto simp: emitted_def)
  from mem have "qp \<in> set (map fst sel)" by force
  with assms(2) have "qp \<in> set prs"
    by (rule subseq_mem)
  then have "(fst qp, snd qp) \<in> set prs" by simp
  with t n show ?thesis by blast
qed

lemma scan_hits_emitted:
  assumes "scan_hits to_int prs q p hs ts = Inr ts'"
  shows "\<exists>sel. emitted prs ts sel ts' \<and> subseq (map fst sel) [(q, p)]"
proof -
  from scan_hits_cases [OF assms] show ?thesis
  proof
    assume "ts' = ts"
    then have "emitted prs ts [] ts'" by (simp add: emitted_def)
    then show ?thesis by force
  next
    assume "\<exists>n. ts' = ts @ [triplet_line q p n] \<and> n \<noteq> p \<and> n \<in> snd ` set prs"
    then obtain n where "ts' = ts @ [triplet_line q p n]" "n \<noteq> p" "n \<in> snd ` set prs"
      by blast
    then have "emitted prs ts [((q, p), n)] ts'" by (simp add: emitted_def)
    then show ?thesis by force
  qed
qed

lemma mine_queries_emitted:
  "mine_queries to_int shuffle prs items (rng, ts) = Inr (rng', ts') \<Longrightarrow>
     \<exists>sel. emitted prs ts sel ts' \<and> subseq (map fst sel) (map (\<lambda>(q, p, r). (q, p)) items)"
proof (induction items arbitrary: rng ts)
  case Nil
  then have "ts' = ts" by simp
  then show ?case using emitted_refl by force
next
  case (Cons item items)
  obtain q p top where item: "item = (q, p, top)" by (cases item)
  obtain shuffled rng1 where sh: "shuffle rng top = (shuffled, rng1)" by (cases "shuffle rng top")
  from Cons.prems item sh obtain ts1 where
    scan: "scan_hits to_int prs q p shuffled ts = Inr ts1" and
    rest: "mine_queries to_int shuffle prs items (rng1, ts1) = Inr (rng', ts')"
    by (auto split: sum.splits)
  from scan_hits_emitted [OF scan] obtain sel1 where
    e1: "emitted prs ts sel1 ts1" and s1: "subseq (map fst sel1) [(q, p)]" by blast
  from Cons.IH [OF rest] obtain sel2 where
    e2: "emitted prs ts1 sel2 ts'" and
    s2: "subseq (map fst sel2) (map (\<lambda>(q, p, r). (q, p)) items)" by blast
  have "subseq (map fst (sel1 @ sel2)) ([(q, p)] @ map (\<lambda>(q, p, r). (q, p)) items)"
    unfolding map_append using s1 s2 by (rule list_emb_append_mono)
  with emitted_trans [OF e1 e2] item show ?case by auto
qed

lemma subseq_zip_fst:
  "subseq (map (\<lambda>(q, p, r). (q, p)) (zip (map fst xs) (zip (map snd xs) res))) xs"
proof -
  have "map (\<lambda>(q, p, r). (q, p)) (zip (map fst xs) (zip (map snd xs) res)) = take (length res) xs"
  proof (induction xs arbitrary: res)
    case Nil
    show ?case by simp
  next
    case (Cons x xs)
    then show ?case by (cases res) auto
  qed
  then show ?thesis by (simp add: prefix_imp_subseq take_is_prefix)
qed

lemma mine_batch_emitted:
  assumes "mine_batch to_int enc iq shuffle s i (rng, ts) = Inr (rng', ts')"
  shows "\<exists>sel. emitted (pairs s) ts sel ts'
           \<and> subseq (map fst sel) (py_slice (pairs s) i (min (i + mining_batch_size) (length (pairs s))))"
proof -
  let ?sl = "py_slice (pairs s) i (min (i + mining_batch_size) (length (pairs s)))"
  let ?res = "iq (index s) (map enc (map fst ?sl)) top_k"
  from assms have "mine_queries to_int shuffle (pairs s) (zip (map fst ?sl) (zip (map snd ?sl) ?res)) (rng, ts)
      = Inr (rng', ts')"
    by (simp add: mine_batch_def Let_def)
  from mine_queries_emitted [OF this] obtain sel where
    e: "emitted (pairs s) ts sel ts'" and
    sub: "subseq (map fst sel) (map (\<lambda>(q, p, r). (q, p)) (zip (map fst ?sl) (zip (map snd ?sl) ?res)))"
    by blast
  from sub subseq_zip_fst [of ?sl ?res] have "subseq (map fst sel) ?sl"
    by (rule subseq_order.trans)
  with e show ?thesis by blast
qed

lemma mine_batches_emitted:
  "mine_batches to_int enc iq shuffle s offs (rng, ts) = Inr (rng', ts') \<Longrightarrow>
     \<exists>sel. emitted (pairs s) ts sel ts'
       \<and> subseq (map fst sel)
            (concat (map (\<lambda>i. py_slice (pairs s) i (min (i + mining_batch_size) (length (pairs s)))) offs))"
proof (induction offs arbitrary: rng ts)
  case Nil
  then have "ts' = ts" by simp
  then show ?case using emitted_refl by force
next
  case (Cons i offs)
  from Cons.prems obtain rng1 ts1 where
    b: "mine_batch to_int enc iq shuffle s i (rng, ts) = Inr (rng1, ts1)" and
    rest: "mine_batches to_int enc iq shuffle s offs (rng1, ts1) = Inr (rng', ts')"
    by (auto split: sum.splits)
  from mine_batch_emitted [OF b] obtain sel1 where
    e1: "emitted (pairs s) ts sel1 ts1" and
    s1: "subseq (map fst sel1) (py_slice (pairs s) i (min (i + mining_batch_size) (length (pairs s))))"
    by blast
  from Cons.IH [OF rest] obtain sel2 where
    e2: "emitted (pairs s) ts1 sel2 ts'" and
    s2: "subseq (map fst sel2)
            (concat (map (\<lambda>i. py_slice (pairs s) i (min (i + mining_batch_size) (length (pairs s)))) offs))"
    by blast
  have "subseq (map fst (sel1 @ sel2))
     (py_slice (pairs s) i (min (i + mining_batch_size) (length (pairs s)))
      @ concat (map (\<lambda>i. py_slice (pairs s) i (min (i + mining_batch_size) (length (pairs s)))) offs))"
    unfolding map_append using s1 s2 by (rule list_emb_append_mono)
  with emitted_trans [OF e1 e2] show ?case by auto
qed

lemma concat_slices_take:
  "concat (map (\<lambda>i. py_slice xs i (min (i + b) (length xs))) (map (\<lambda>k. k * b) [0..<m]))
     = take (m * b) xs"
proof (induction m)
  case 0
  show ?case by simp
next
  case (Suc m)
  have "take (m * b) xs @ py_slice xs (m * b) (min (m * b + b) (length xs)) = take (m * b + b) xs"
    by (simp add: py_slice_def take_add drop_take min_def)
  with Suc show ?case by (simp add: add.commute)
qed

lemma concat_slices:
  assumes "0 < b"
  shows "concat (map (\<lambda>i. py_slice xs i (min (i + b) (length xs))) (py_range (length xs) b)) = xs"
proof -
  have "length xs \<le> ((length xs + b - 1) div b) * b"
  proof -
    have "length xs + b - 1 = ((length xs + b - 1) div b) * b + (length xs + b - 1) mod b"
      by simp
    moreover have "(length xs + b - 1) mod b < b" using assms by simp
    ultimately show ?thesis by linarith
  qed
  then show ?thesis
    unfolding py_range_def concat_slices_take by simp
qed

lemma py_range_slices:
  assumes "0 < b" and "i \<in> set (py_range (length xs) b)"
  shows "i < length xs \<and> length (py_slice xs i (min (i + b) (length xs))) = min b (length xs - i)"
proof -
  from assms(2) obtain k where k: "i = k * b" "k < (length xs + b - 1) div b"
    unfolding py_range_def by force
  from k(2) have "Suc k \<le> (length xs + b - 1) div b" by simp
  then have "Suc k * b \<le> length xs + b - 1"
    using assms(1) by (simp add: less_eq_div_iff_mult_less_eq)
  with assms(1) k(1) have "i < length xs" by simp
  then show ?thesis by (auto simp: py_slice_def)
qed

lemma mine_emitted:
  assumes "mine to_int enc iq shuffle s rng = Inr triplets"
  shows "\<exists>sel. emitted (pairs s) [] sel triplets \<and> subseq (map fst sel) (pairs s)"
proof -
  from assms obtain rng' where
    "mine_batches to_int enc iq shuffle s (py_range (length (pairs s)) mining_batch_size) (rng, [])
       = Inr (rng', triplets)"
    by (auto simp: mine_def split: sum.splits)
  from mine_batches_emitted [OF this] show ?thesis
    by (simp add: concat_slices mining_batch_size_def)
qed

lemma mine_queries_append:
  "mine_queries to_int shuffle prs (xs @ ys) st =
     (case mine_queries to_int shuffle prs xs st of
        Inl e \<Rightarrow> Inl e
      | Inr st' \<Rightarrow> mine_queries to_int shuffle prs ys st')"
proof (induction xs arbitrary: st)
  case Nil
  show ?case by simp
next
  case (Cons item xs)
  obtain q p top where item: "item = (q, p, top)" by (cases item)
  obtain rng ts where st: "st = (rng, ts)" by (cases st)
  show ?case
    unfolding item st using Cons.IH
    by (simp split: prod.splits sum.splits)
qed


lemma mine_batch_items:
  "mine_batch to_int enc iq shuffle s i st
     = mine_queries to_int shuffle (pairs s) (batch_items enc iq s mining_batch_size top_k i) st"
  by (simp add: mine_batch_def batch_items_def Let_def)

lemma mine_batches_flat:
  "mine_batches to_int enc iq shuffle s offs st
     = mine_queries to_int shuffle (pairs s)
         (concat (map (batch_items enc iq s mining_batch_size top_k) offs)) st"
proof (induction offs arbitrary: st)
  case Nil
  show ?case by simp
next
  case (Cons i offs)
  show ?case
    by (simp add: mine_batch_items mine_queries_append Cons.IH split: sum.splits)
qed

lemma mine_flat:
  "mine to_int enc iq shuffle s rng =
     (case mine_queries to_int shuffle (pairs s)
             (concat (map (batch_items enc iq s 100 10) (py_range (length (pairs s)) 100)))
             (rng, []) of
        Inl e \<Rightarrow> Inl e
      | Inr (rng', triplets) \<Rightarrow> Inr triplets)"
  by (simp add: mine_def mine_batches_flat mining_batch_size_def top_k_def)

lemma zip_fst_take:
  "map (\<lambda>(q, p, r). (q, p)) (zip (map fst xs) (zip (map snd xs) res)) = take (length res) xs"
proof (induction xs arbitrary: res)
  case Nil
  show ?case by simp
next
  case (Cons x xs)
  then show ?case by (cases res) auto
qed

lemma batch_items_pairs:
  "map (\<lambda>(q, p, r). (q, p)) (batch_items enc iq s b k i)
     = take (length (iq (index s)
                (map enc (map fst (py_slice (pairs s) i (min (i + b) (length (pairs s)))))) k))
         (py_slice (pairs s) i (min (i + b) (length (pairs s))))"
  by (simp add: batch_items_def zip_fst_take)

lemma all_items_pairs:
  assumes "0 < b" and "\<forall>vs. length (iq (index s) vs k) = length vs"
  shows "map (\<lambda>(q, p, r). (q, p))
           (concat (map (batch_items enc iq s b k) (py_range (length (pairs s)) b))) = pairs s"
proof -
  have "map (\<lambda>(q, p, r). (q, p)) (batch_items enc iq s b k i)
      = py_slice (pairs s) i (min (i + b) (length (pairs s)))" for i
    unfolding batch_items_pairs using assms(2) by simp
  then have "map (\<lambda>(q, p, r). (q, p))
           (concat (map (batch_items enc iq s b k) (py_range (length (pairs s)) b)))
      = concat (map (\<lambda>i. py_slice (pairs s) i (min (i + b) (length (pairs s))))
          (py_range (length (pairs s)) b))"
    by (simp add: map_concat comp_def)
  then show ?thesis by (simp add: concat_slices [OF assms(1)])
qed




lemma example_mine:
  "mine py_int (\<lambda>p. p) example_query example_shuffle (upsert_loop (\<lambda>p. p) example_pairs) 0
     = Inr [triplet_line ''q0'' ''p0'' ''p1'', triplet_line ''q1'' ''p1'' ''p0'']"
  by code_simp

text \<open>
  C2. Every line of \<^verbatim>\<open>triplets\<close> at the end of a mining pass that returns is the line of
  a query and its positive, which are a pair of \<^verbatim>\<open>pairs\<close>, and of a negative that is the
  passage of some pair of \<^verbatim>\<open>pairs\<close> and differs from the positive.
\<close>

theorem mined_negative_differs:
  assumes "mine to_int enc index_query shuffle s rng = Inr triplets" and "t \<in> set triplets"
  shows "\<exists>query pos neg. t = triplet_line query pos neg \<and> (query, pos) \<in> set (pairs s)
           \<and> neg \<in> snd ` set (pairs s) \<and> neg \<noteq> pos"
proof -
  from mine_emitted [OF assms(1)] obtain sel where
    "emitted (pairs s) [] sel triplets" "subseq (map fst sel) (pairs s)" by blast
  from emitted_set [OF this assms(2)] show ?thesis .
qed

theorem mined_negative_differs_witness:
  "mine py_int (\<lambda>p. p) example_query example_shuffle (upsert_loop (\<lambda>p. p) example_pairs) 0
     = Inr [triplet_line ''q0'' ''p0'' ''p1'', triplet_line ''q1'' ''p1'' ''p0'']
   \<and> (\<exists>query pos neg.
         triplet_line ''q1'' ''p1'' ''p0'' = triplet_line query pos neg
       \<and> (query, pos) \<in> set (pairs (upsert_loop (\<lambda>p. p) example_pairs))
       \<and> neg \<in> snd ` set (pairs (upsert_loop (\<lambda>p. p) example_pairs)) \<and> neg \<noteq> pos)"
proof -
  have "triplet_line ''q1'' ''p1'' ''p0''
      \<in> set [triplet_line ''q0'' ''p0'' ''p1'', triplet_line ''q1'' ''p1'' ''p0'']"
    by simp
  from mined_negative_differs [OF example_mine this] example_mine show ?thesis
    by blast
qed



text \<open>
  C5. The scan of one query leaves \<^verbatim>\<open>triplets\<close> as it is or appends one line to it; a
  run of the per-query loop over \<open>items\<close> appends at most one line for each item; and a
  mining pass that returns holds at most as many triplets as there are pairs.
\<close>

theorem at_most_one_triplet_per_query:
  "(scan_hits to_int prs query pos hits triplets = Inr triplets'
      \<longrightarrow> triplets' = triplets \<or> (\<exists>neg. triplets' = triplets @ [triplet_line query pos neg]))
   \<and> (mine_queries to_int shuffle prs items (rng, triplets) = Inr (rng', triplets')
      \<longrightarrow> length triplets' \<le> length triplets + length items)
   \<and> (mine to_int enc index_query shuffle s rng = Inr triplets'
      \<longrightarrow> length triplets' \<le> length (pairs s))"
proof (intro conjI impI)
  assume "scan_hits to_int prs query pos hits triplets = Inr triplets'"
  from scan_hits_cases [OF this]
  show "triplets' = triplets \<or> (\<exists>neg. triplets' = triplets @ [triplet_line query pos neg])"
    by blast
next
  assume "mine_queries to_int shuffle prs items (rng, triplets) = Inr (rng', triplets')"
  from mine_queries_emitted [OF this] obtain sel where
    "emitted prs triplets sel triplets'"
    "subseq (map fst sel) (map (\<lambda>(q, p, r). (q, p)) items)" by blast
  from emitted_length [OF this] show "length triplets' \<le> length triplets + length items"
    by simp
next
  assume "mine to_int enc index_query shuffle s rng = Inr triplets'"
  from mine_emitted [OF this] obtain sel where
    "emitted (pairs s) [] sel triplets'" "subseq (map fst sel) (pairs s)" by blast
  from emitted_length [OF this] show "length triplets' \<le> length (pairs s)"
    by simp
qed

theorem at_most_one_triplet_per_query_witness:
  "scan_hits py_int example_pairs ''q0'' ''p0'' [Hit ''1'', Hit ''0''] [] = Inr [triplet_line ''q0'' ''p0'' ''p1'']
   \<and> mine_queries py_int example_shuffle example_pairs
        [(''q0'', ''p0'', [Hit ''0'', Hit ''1'']), (''q1'', ''p1'', [Hit ''1''])] (0, [])
       = Inr (2, [triplet_line ''q0'' ''p0'' ''p1''])
   \<and> mine py_int (\<lambda>p. p) example_query example_shuffle (upsert_loop (\<lambda>p. p) example_pairs) 0
       = Inr [triplet_line ''q0'' ''p0'' ''p1'', triplet_line ''q1'' ''p1'' ''p0'']
   \<and> length [triplet_line ''q0'' ''p0'' ''p1'', triplet_line ''q1'' ''p1'' ''p0'']
       \<le> length (pairs (upsert_loop (\<lambda>p. p) example_pairs))"
proof -
  have a: "scan_hits py_int example_pairs ''q0'' ''p0'' [Hit ''1'', Hit ''0''] []
      = Inr [triplet_line ''q0'' ''p0'' ''p1'']"
    by code_simp
  have b: "mine_queries py_int example_shuffle example_pairs
        [(''q0'', ''p0'', [Hit ''0'', Hit ''1'']), (''q1'', ''p1'', [Hit ''1''])] (0, [])
       = Inr (2, [triplet_line ''q0'' ''p0'' ''p1''])"
    by code_simp
  from at_most_one_triplet_per_query
    [where to_int = py_int and enc = "\<lambda>p. p" and index_query = example_query
       and shuffle = example_shuffle
       and s = "upsert_loop (\<lambda>p. p) example_pairs" and rng = 0
       and triplets' = "[triplet_line ''q0'' ''p0'' ''p1'', triplet_line ''q1'' ''p1'' ''p0'']"]
  have "length [triplet_line ''q0'' ''p0'' ''p1'', triplet_line ''q1'' ''p1'' ''p0'']
       \<le> length (pairs (upsert_loop (\<lambda>p. p) example_pairs))"
    using example_mine by blast
  with a b example_mine show ?thesis by blast
qed

section \<open>The triplets file\<close>

lemma py_split_free: "sep \<notin> set w \<Longrightarrow> py_split sep w = [w]"
  by (induction w) auto

lemma py_split_append:
  "sep \<notin> set w \<Longrightarrow> py_split sep (w @ sep # rest) = w # py_split sep rest"
  by (induction w) auto

lemma py_split_parts: "w \<in> set (py_split sep s) \<Longrightarrow> sep \<notin> set w \<and> set w \<subseteq> set s"
proof (induction s arbitrary: w)
  case Nil
  then show ?case by simp
next
  case (Cons c cs)
  show ?case
  proof (cases "c = sep")
    case True
    with Cons show ?thesis by auto
  next
    case False
    obtain v vs where sp: "py_split sep cs = v # vs"
      using py_split_not_Nil [of sep cs] by (cases "py_split sep cs") auto
    with False Cons.prems have "w = c # v \<or> w \<in> set vs" by auto
    then show ?thesis
    proof
      assume w: "w = c # v"
      from Cons.IH [of v] sp have "sep \<notin> set v \<and> set v \<subseteq> set cs" by simp
      with w False show ?thesis by auto
    next
      assume "w \<in> set vs"
      with Cons.IH [of w] sp show ?thesis by auto
    qed
  qed
qed

lemma py_split_join:
  "lines \<noteq> [] \<Longrightarrow> \<forall>l\<in>set lines. sep \<notin> set l \<Longrightarrow> py_split sep (py_join [sep] lines) = lines"
proof (induction "[sep]" lines rule: py_join.induct)
  case 1
  then show ?case by simp
next
  case (2 x)
  then show ?case by (simp add: py_split_free)
next
  case (3 x y ys)
  then show ?case by (simp add: py_split_append)
qed

lemma py_split_triplet_line:
  "tab \<notin> set q \<Longrightarrow> tab \<notin> set p \<Longrightarrow> tab \<notin> set n \<Longrightarrow>
     py_split tab (triplet_line q p n) = [q, p, n]"
  by (simp add: triplet_line_def py_split_append py_split_free)

lemma get_text_clean:
  assumes "get_text fs = Inr ps" and "(q, p) \<in> set ps"
  shows "tab \<notin> set q \<and> newline \<notin> set q \<and> tab \<notin> set p \<and> newline \<notin> set p"
proof -
  from assms(1) obtain contents where
    ps: "ps = map line_pair (filter well_formed (py_split newline contents))"
    by (auto simp: get_text_def get_text_lines_filter split: option.splits)
  with assms(2) obtain line where
    line: "line \<in> set (py_split newline contents)" "well_formed line" "line_pair line = (q, p)"
    by auto
  from line(2) obtain a b where ab: "py_split tab line = [a, b]"
    by (auto simp: well_formed_def length_Suc_conv numeral_2_eq_2)
  with line(3) have qp: "q = a" "p = b" by (simp_all add: line_pair_def)
  from py_split_parts [OF line(1)] have nl: "newline \<notin> set line" by simp
  have "q \<in> set (py_split tab line)" "p \<in> set (py_split tab line)"
    using ab qp by simp_all
  from this [THEN py_split_parts] nl show ?thesis by auto
qed

lemma newline_not_tab: "newline \<noteq> tab"
  by (simp add: newline_def tab_def)

lemma triplet_line_no_newline:
  "newline \<notin> set q \<Longrightarrow> newline \<notin> set p \<Longrightarrow> newline \<notin> set n \<Longrightarrow>
     newline \<notin> set (triplet_line q p n)"
  by (simp add: triplet_line_def newline_not_tab)

lemma example_get_text:
  "get_text [pairs_path \<mapsto> ''q0'' @ [tab] @ ''p0'' @ [newline] @ ''q1'' @ [tab] @ ''p1'']
     = Inr (pairs (upsert_loop (\<lambda>p. p) example_pairs))"
  by (simp add: get_text_def tab_def newline_def upsert_loop_lengths example_pairs_def)

lemma mining_cell_lines:
  assumes "mining_cell to_int enc index_query shuffle s rng fs = Inr fs'"
  shows "\<exists>triplets sel.
           mine to_int enc index_query shuffle s rng = Inr triplets
         \<and> fs' = fs(triplets_path \<mapsto> py_join [newline] triplets)
         \<and> triplets = map (\<lambda>(qp, neg). triplet_line (fst qp) (snd qp) neg) sel
         \<and> subseq (map fst sel) (pairs s)
         \<and> (get_text fs = Inr (pairs s) \<and> sel \<noteq> []
             \<longrightarrow> py_split newline (py_join [newline] triplets) = triplets
               \<and> (\<forall>(qp, neg)\<in>set sel.
                     py_split tab (triplet_line (fst qp) (snd qp) neg) = [fst qp, snd qp, neg]))"
proof -
  let ?f = "\<lambda>(qp, neg). triplet_line (fst qp) (snd qp) neg"
  from assms obtain triplets where
    m: "mine to_int enc index_query shuffle s rng = Inr triplets" and
    fs': "fs' = fs(triplets_path \<mapsto> py_join [newline] triplets)"
    by (auto simp: mining_cell_def split: sum.splits)
  from mine_emitted [OF m] obtain sel where
    e: "emitted (pairs s) [] sel triplets" and sub: "subseq (map fst sel) (pairs s)" by blast
  from e have tr: "triplets = map ?f sel" by (simp add: emitted_def)
  have lines: "py_split newline (py_join [newline] triplets) = triplets
               \<and> (\<forall>(qp, neg)\<in>set sel.
                     py_split tab (triplet_line (fst qp) (snd qp) neg) = [fst qp, snd qp, neg])"
    if g: "get_text fs = Inr (pairs s)" and ne: "sel \<noteq> []"
  proof -
    have clean: "tab \<notin> set (fst qp) \<and> newline \<notin> set (fst qp) \<and> tab \<notin> set (snd qp)
        \<and> newline \<notin> set (snd qp) \<and> tab \<notin> set neg \<and> newline \<notin> set neg"
      if mem: "(qp, neg) \<in> set sel" for qp neg
    proof -
      from mem have "qp \<in> set (map fst sel)" by force
      with sub have "(fst qp, snd qp) \<in> set (pairs s)"
        using subseq_mem by fastforce
      from get_text_clean [OF g this] have a: "tab \<notin> set (fst qp) \<and> newline \<notin> set (fst qp)
          \<and> tab \<notin> set (snd qp) \<and> newline \<notin> set (snd qp)" .
      from mem e have "neg \<in> snd ` set (pairs s)" by (auto simp: emitted_def)
      then obtain q' where "(q', neg) \<in> set (pairs s)" by auto
      from get_text_clean [OF g this] a show ?thesis by simp
    qed
    have "\<forall>l\<in>set (map ?f sel). newline \<notin> set l"
      using clean by (auto simp: triplet_line_no_newline)
    moreover have "map ?f sel \<noteq> []" using ne by simp
    ultimately have "py_split newline (py_join [newline] (map ?f sel)) = map ?f sel"
      by (simp add: py_split_join)
    moreover have "\<forall>(qp, neg)\<in>set sel.
        py_split tab (triplet_line (fst qp) (snd qp) neg) = [fst qp, snd qp, neg]"
      using clean by (auto simp: py_split_triplet_line)
    ultimately show ?thesis unfolding tr by simp
  qed
  from m fs' tr sub lines show ?thesis by blast
qed

lemma example_mine_two_batches:
  "mine py_int (\<lambda>p. p) example_query example_shuffle (upsert_loop (\<lambda>p. p) (numbered_pairs 101 101)) 0
     = Inr (map (\<lambda>k. triplet_line ''q'' (py_str k) (if k = 1 then ''0'' else ''1'')) [0..<101])"
  by code_simp

text \<open>
  C8. A mining pass is the per-query loop run once over the items of the rounds at the
  offsets \<open>0, 100, 200, \<dots>\<close> in this order, each round asking the index for 10 matches
  for the queries of its slice of \<^verbatim>\<open>pairs\<close>. The slices concatenate to \<^verbatim>\<open>pairs\<close>, each
  has 100 pairs except a shorter, non-empty last one, and the items of a round pair the
  queries and positives of its slice, in order, with the results of the index; when the
  index returns one result for every query vector, the queries and positives of all
  rounds are exactly \<^verbatim>\<open>pairs\<close>. When the pass returns, the cell writes its triplets,
  joined by newlines, to the triplets file; each triplet is the line of a query, its
  positive and a negative joined by tabs, and the (query, positive) pairs of the lines
  are a subsequence of \<^verbatim>\<open>pairs\<close>: the lines follow the input order. When \<^verbatim>\<open>pairs\<close> is
  what the parser read and there is at least one triplet, splitting the file at newlines
  gives back the triplets and splitting a line at tabs gives back its three fields.
\<close>

theorem mining_output_in_input_order:
  "mine to_int enc index_query shuffle s rng
     = (case mine_queries to_int shuffle (pairs s)
               (concat (map (batch_items enc index_query s 100 10)
                          (py_range (length (pairs s)) 100)))
               (rng, []) of
          Inl e \<Rightarrow> Inl e
        | Inr (rng', triplets) \<Rightarrow> Inr triplets)
   \<and> concat (map (\<lambda>i. py_slice (pairs s) i (min (i + 100) (length (pairs s))))
               (py_range (length (pairs s)) 100)) = pairs s
   \<and> (\<forall>i\<in>set (py_range (length (pairs s)) 100).
         i < length (pairs s)
       \<and> length (py_slice (pairs s) i (min (i + 100) (length (pairs s))))
           = min 100 (length (pairs s) - i)
       \<and> map (\<lambda>(q, p, r). (q, p)) (batch_items enc index_query s 100 10 i)
           = take (length (index_query (index s)
                      (map enc (map fst (py_slice (pairs s) i (min (i + 100) (length (pairs s))))))
                      10))
               (py_slice (pairs s) i (min (i + 100) (length (pairs s)))))
   \<and> ((\<forall>vs. length (index_query (index s) vs 10) = length vs)
       \<longrightarrow> map (\<lambda>(q, p, r). (q, p))
             (concat (map (batch_items enc index_query s 100 10)
                        (py_range (length (pairs s)) 100))) = pairs s)
   \<and> (\<forall>triplets. mine to_int enc index_query shuffle s rng = Inr triplets
         \<longrightarrow> mining_cell to_int enc index_query shuffle s rng fs
               = Inr (fs(triplets_path \<mapsto> py_join [newline] triplets)))
   \<and> (mining_cell to_int enc index_query shuffle s rng fs = Inr fs'
       \<longrightarrow> (\<exists>triplets sel.
               mine to_int enc index_query shuffle s rng = Inr triplets
             \<and> fs' = fs(triplets_path \<mapsto> py_join [newline] triplets)
             \<and> triplets = map (\<lambda>(qp, neg). triplet_line (fst qp) (snd qp) neg) sel
             \<and> subseq (map fst sel) (pairs s)
             \<and> (get_text fs = Inr (pairs s) \<and> sel \<noteq> []
                 \<longrightarrow> py_split newline (py_join [newline] triplets) = triplets
                   \<and> (\<forall>(qp, neg)\<in>set sel.
                         py_split tab (triplet_line (fst qp) (snd qp) neg)
                           = [fst qp, snd qp, neg]))))"
proof (intro conjI)
  show "mine to_int enc index_query shuffle s rng
     = (case mine_queries to_int shuffle (pairs s)
               (concat (map (batch_items enc index_query s 100 10)
                          (py_range (length (pairs s)) 100)))
               (rng, []) of
          Inl e \<Rightarrow> Inl e
        | Inr (rng', triplets) \<Rightarrow> Inr triplets)"
    by (rule mine_flat)
  show "concat (map (\<lambda>i. py_slice (pairs s) i (min (i + 100) (length (pairs s))))
               (py_range (length (pairs s)) 100)) = pairs s"
    by (rule concat_slices) simp
  show "\<forall>i\<in>set (py_range (length (pairs s)) 100).
         i < length (pairs s)
       \<and> length (py_slice (pairs s) i (min (i + 100) (length (pairs s))))
           = min 100 (length (pairs s) - i)
       \<and> map (\<lambda>(q, p, r). (q, p)) (batch_items enc index_query s 100 10 i)
           = take (length (index_query (index s)
                      (map enc (map fst (py_slice (pairs s) i (min (i + 100) (length (pairs s))))))
                      10))
               (py_slice (pairs s) i (min (i + 100) (length (pairs s))))"
    using py_range_slices [of 100 _ "pairs s"] batch_items_pairs [of enc index_query s 100 10]
    by simp
  show "(\<forall>vs. length (index_query (index s) vs 10) = length vs)
       \<longrightarrow> map (\<lambda>(q, p, r). (q, p))
             (concat (map (batch_items enc index_query s 100 10)
                        (py_range (length (pairs s)) 100))) = pairs s"
    using all_items_pairs [of 100 index_query s 10 enc] by simp
  show "\<forall>triplets. mine to_int enc index_query shuffle s rng = Inr triplets
         \<longrightarrow> mining_cell to_int enc index_query shuffle s rng fs
               = Inr (fs(triplets_path \<mapsto> py_join [newline] triplets))"
    by (simp add: mining_cell_def)
  show "mining_cell to_int enc index_query shuffle s rng fs = Inr fs'
       \<longrightarrow> (\<exists>triplets sel.
               mine to_int enc index_query shuffle s rng = Inr triplets
             \<and> fs' = fs(triplets_path \<mapsto> py_join [newline] triplets)
             \<and> triplets = map (\<lambda>(qp, neg). triplet_line (fst qp) (snd qp) neg) sel
             \<and> subseq (map fst sel) (pairs s)
             \<and> (get_text fs = Inr (pairs s) \<and> sel \<noteq> []
                 \<longrightarrow> py_split newline (py_join [newline] triplets) = triplets
                   \<and> (\<forall>(qp, neg)\<in>set sel.
                         py_split tab (triplet_line (fst qp) (snd qp) neg)
                           = [fst qp, snd qp, neg])))"
    using mining_cell_lines [of to_int enc index_query shuffle s rng fs fs'] by blast
qed

theorem mining_output_in_input_order_witness:
  "py_range (length (pairs (upsert_loop (\<lambda>p. p) (numbered_pairs 101 101)))) 100 = [0, 100]
   \<and> length (py_slice (pairs (upsert_loop (\<lambda>p. p) (numbered_pairs 101 101))) 100
        (min (100 + 100) (length (pairs (upsert_loop (\<lambda>p. p) (numbered_pairs 101 101)))))) = 1
   \<and> mine py_int (\<lambda>p. p) example_query example_shuffle (upsert_loop (\<lambda>p. p) (numbered_pairs 101 101)) 0
       = Inr (map (\<lambda>k. triplet_line ''q'' (py_str k) (if k = 1 then ''0'' else ''1'')) [0..<101])
   \<and> map (\<lambda>(q, p, r). (q, p))
        (concat (map (batch_items (\<lambda>p. p) example_query (upsert_loop (\<lambda>p. p) (numbered_pairs 101 101)) 100 10)
           (py_range (length (pairs (upsert_loop (\<lambda>p. p) (numbered_pairs 101 101)))) 100)))
       = pairs (upsert_loop (\<lambda>p. p) (numbered_pairs 101 101))
   \<and> mining_cell py_int (\<lambda>p. p) example_query example_shuffle
        (upsert_loop (\<lambda>p. p) (numbered_pairs 101 101)) 0 Map.empty
       = Inr [triplets_path \<mapsto> py_join [newline]
               (map (\<lambda>k. triplet_line ''q'' (py_str k) (if k = 1 then ''0'' else ''1'')) [0..<101])]
   \<and> mining_cell py_int (\<lambda>p. p) example_query example_shuffle (upsert_loop (\<lambda>p. p) example_pairs) 0
       [pairs_path \<mapsto> ''q0'' @ [tab] @ ''p0'' @ [newline] @ ''q1'' @ [tab] @ ''p1'']
     = Inr ([pairs_path \<mapsto> ''q0'' @ [tab] @ ''p0'' @ [newline] @ ''q1'' @ [tab] @ ''p1'',
             triplets_path \<mapsto> py_join [newline]
               [triplet_line ''q0'' ''p0'' ''p1'', triplet_line ''q1'' ''p1'' ''p0'']])
   \<and> get_text [pairs_path \<mapsto> ''q0'' @ [tab] @ ''p0'' @ [newline] @ ''q1'' @ [tab] @ ''p1'']
       = Inr (pairs (upsert_loop (\<lambda>p. p) example_pairs))
   \<and> py_split newline (py_join [newline]
        [triplet_line ''q0'' ''p0'' ''p1'', triplet_line ''q1'' ''p1'' ''p0''])
       = [triplet_line ''q0'' ''p0'' ''p1'', triplet_line ''q1'' ''p1'' ''p0'']"
proof -
  let ?S = "upsert_loop (\<lambda>p. p) (numbered_pairs 101 101)"
  let ?L = "map (\<lambda>k. triplet_line ''q'' (py_str k) (if k = 1 then ''0'' else ''1'')) [0..<101]"
  let ?s = "upsert_loop (\<lambda>p. p) example_pairs"
  let ?fs = "[pairs_path \<mapsto> ''q0'' @ [tab] @ ''p0'' @ [newline] @ ''q1'' @ [tab] @ ''p1'']"
  let ?l = "[triplet_line ''q0'' ''p0'' ''p1'', triplet_line ''q1'' ''p1'' ''p0'']"
  have len: "length (pairs ?S) = 101"
    unfolding upsert_loop_lengths(4) by (simp add: numbered_pairs_def)
  have offs: "py_range (length (pairs ?S)) 100 = [0, 100]"
    unfolding len by code_simp
  have answered: "\<forall>vs. length (example_query (index ?S) vs 10) = length vs"
    by (simp add: example_query_def)
  note big = mining_output_in_input_order
    [of py_int "\<lambda>p. p" example_query example_shuffle ?S 0 Map.empty]
  from big have "\<forall>i\<in>set (py_range (length (pairs ?S)) 100).
      length (py_slice (pairs ?S) i (min (i + 100) (length (pairs ?S))))
        = min 100 (length (pairs ?S) - i)"
    by blast
  then have last: "length (py_slice (pairs ?S) 100 (min (100 + 100) (length (pairs ?S)))) = 1"
    unfolding offs by (simp add: len)
  from big answered have all: "map (\<lambda>(q, p, r). (q, p))
        (concat (map (batch_items (\<lambda>p. p) example_query ?S 100 10) (py_range (length (pairs ?S)) 100)))
       = pairs ?S"
    by blast
  from big example_mine_two_batches
  have cell: "mining_cell py_int (\<lambda>p. p) example_query example_shuffle ?S 0 Map.empty
       = Inr [triplets_path \<mapsto> py_join [newline] ?L]"
    by blast
  note small = mining_output_in_input_order
    [of py_int "\<lambda>p. p" example_query example_shuffle ?s 0 ?fs "?fs(triplets_path \<mapsto> py_join [newline] ?l)"]
  from small example_mine
  have run: "mining_cell py_int (\<lambda>p. p) example_query example_shuffle ?s 0 ?fs
      = Inr (?fs(triplets_path \<mapsto> py_join [newline] ?l))"
    by blast
  with small obtain triplets sel where
    m: "mine py_int (\<lambda>p. p) example_query example_shuffle ?s 0 = Inr triplets" and
    tr: "triplets = map (\<lambda>(qp, neg). triplet_line (fst qp) (snd qp) neg) sel" and
    lines: "get_text ?fs = Inr (pairs ?s) \<and> sel \<noteq> []
      \<longrightarrow> py_split newline (py_join [newline] triplets) = triplets"
    by blast
  from m example_mine have tl: "triplets = ?l" by simp
  with tr have "sel \<noteq> []" by auto
  with lines example_get_text have "py_split newline (py_join [newline] triplets) = triplets"
    by blast
  then have split: "py_split newline (py_join [newline] ?l) = ?l"
    unfolding tl .
  from offs last example_mine_two_batches all cell run example_get_text split
  show ?thesis by (intro conjI)
qed

end
